theory Spec2Isabelle
  imports Complex_Main "HOL-Library.AList"
begin

section \<open>Text: characters and the string methods the extractor calls\<close>

text \<open>
  Narratives are modelled as HOL strings (lists of 8-bit characters) read as ASCII text:
  only the letters a-z and A-Z are cased, and a character above code 127 is an uncased
  character that is neither a word character nor white space.
\<close>

definition ord :: "char \<Rightarrow> nat" where
  "ord c = of_char c"

definition is_lower :: "char \<Rightarrow> bool" where
  "is_lower c = (97 \<le> ord c \<and> ord c \<le> 122)"

definition is_upper :: "char \<Rightarrow> bool" where
  "is_upper c = (65 \<le> ord c \<and> ord c \<le> 90)"

definition is_digit :: "char \<Rightarrow> bool" where
  "is_digit c = (48 \<le> ord c \<and> ord c \<le> 57)"

definition is_alpha :: "char \<Rightarrow> bool" where
  "is_alpha c = (is_lower c \<or> is_upper c)"

text \<open>The class \<open>\w\<close> of the regular expressions: letters, digits and the underscore.\<close>

definition is_word_char :: "char \<Rightarrow> bool" where
  "is_word_char c = (is_alpha c \<or> is_digit c \<or> ord c = 95)"

text \<open>
  White space as \<open>str.strip()\<close> and the class \<open>\s\<close> see it: tab, line feed, vertical tab,
  form feed, carriage return, the four separators 28 to 31, and the space.
\<close>

definition is_space :: "char \<Rightarrow> bool" where
  "is_space c = ((9 \<le> ord c \<and> ord c \<le> 13) \<or> (28 \<le> ord c \<and> ord c \<le> 32))"

definition upper_char :: "char \<Rightarrow> char" where
  "upper_char c = (if is_lower c then char_of (ord c - 32) else c)"

definition lower_char :: "char \<Rightarrow> char" where
  "lower_char c = (if is_upper c then char_of (ord c + 32) else c)"

text \<open>\<open>s.upper()\<close> and \<open>s.lower()\<close>.\<close>

definition str_upper :: "string \<Rightarrow> string" where
  "str_upper s = map upper_char s"

definition str_lower :: "string \<Rightarrow> string" where
  "str_lower s = map lower_char s"

text \<open>\<open>s.replace(c, '')\<close> for a one-character \<open>c\<close>: every occurrence is dropped.\<close>

definition str_remove :: "char \<Rightarrow> string \<Rightarrow> string" where
  "str_remove c s = filter (\<lambda>x. x \<noteq> c) s"

text \<open>\<open>s.replace(a, b)\<close> for one-character \<open>a\<close> and \<open>b\<close>.\<close>

definition str_replace_char :: "char \<Rightarrow> char \<Rightarrow> string \<Rightarrow> string" where
  "str_replace_char a b s = map (\<lambda>x. if x = a then b else x) s"

text \<open>
  \<open>s.title()\<close>: a cased character is upper-cased when the character before it is not
  cased, and lower-cased otherwise. The flag says whether the previous character is cased.
\<close>

fun title_from :: "bool \<Rightarrow> string \<Rightarrow> string" where
  "title_from prev [] = []"
| "title_from prev (c # cs) =
     (if is_alpha c then (if prev then lower_char c else upper_char c) # title_from True cs
      else c # title_from False cs)"

definition str_title :: "string \<Rightarrow> string" where
  "str_title s = title_from False s"

text \<open>\<open>s.strip()\<close>: white space is dropped at both ends.\<close>

definition str_strip :: "string \<Rightarrow> string" where
  "str_strip s = rev (dropWhile is_space (rev (dropWhile is_space s)))"

section \<open>Regular expressions: the fragment the Pattern Library uses\<close>

text \<open>
  The patterns of \<open>extractors.py\<close> use literals, character classes, \<open>\b\<close>, sequencing,
  alternation and greedy bounded repetition. A cursor is the character before it (if any)
  and the text after it. \<open>matches r st\<close> lists the cursors at which a match of \<open>r\<close> begun
  at \<open>st\<close> can end, in the order in which the backtracking matcher of \<open>re\<close> tries them:
  the left alternative first, the longest repetition first.
\<close>

datatype regex =
    Lit string
  | Cls "char \<Rightarrow> bool"
  | WordB
  | Seq regex regex
  | Alt regex regex
  | Rep nat nat regex

type_synonym cursor = "char option \<times> string"

primrec rsize :: "regex \<Rightarrow> nat" where
  "rsize (Lit w) = 0"
| "rsize (Cls p) = 0"
| "rsize WordB = 0"
| "rsize (Seq a b) = Suc (rsize a + rsize b)"
| "rsize (Alt a b) = Suc (rsize a + rsize b)"
| "rsize (Rep lo hi r) = Suc (hi + rsize r)"

definition word_before :: "char option \<Rightarrow> bool" where
  "word_before p = (case p of None \<Rightarrow> False | Some c \<Rightarrow> is_word_char c)"

definition word_after :: "string \<Rightarrow> bool" where
  "word_after s = (case s of [] \<Rightarrow> False | c # _ \<Rightarrow> is_word_char c)"

function matches :: "regex \<Rightarrow> cursor \<Rightarrow> cursor list" where
  "matches (Lit w) st =
     (if take (length w) (snd st) = w
      then [(if w = [] then fst st else Some (last w), drop (length w) (snd st))]
      else [])"
| "matches (Cls p) st =
     (case snd st of [] \<Rightarrow> [] | c # s \<Rightarrow> if p c then [(Some c, s)] else [])"
| "matches WordB st =
     (if word_before (fst st) \<noteq> word_after (snd st) then [st] else [])"
| "matches (Seq a b) st = concat (map (matches b) (matches a st))"
| "matches (Alt a b) st = matches a st @ matches b st"
| "matches (Rep lo hi r) st =
     (if hi = 0 then (if lo = 0 then [st] else [])
      else concat (map (matches (Rep (lo - 1) (hi - 1) r)) (matches r st))
           @ (if lo = 0 then [st] else []))"
  by pat_completeness auto
termination
  by (relation "measure (\<lambda>(r, st). rsize r)") auto

text \<open>
  \<open>re.search(pattern, s)\<close>: the start positions are tried from the left, and at the first
  one where the pattern matches, the first match in backtracking order is taken. The
  result is \<open>match.group(0)\<close>, the matched text; \<open>None\<close> when no position matches.
\<close>

fun search_from :: "regex \<Rightarrow> char option \<Rightarrow> string \<Rightarrow> string option" where
  "search_from r p [] =
     (case matches r (p, []) of [] \<Rightarrow> None | e # _ \<Rightarrow> Some [])"
| "search_from r p (c # s) =
     (case matches r (p, c # s) of
        [] \<Rightarrow> search_from r (Some c) s
      | e # _ \<Rightarrow> Some (take (length (c # s) - length (snd e)) (c # s)))"

definition re_search :: "regex \<Rightarrow> string \<Rightarrow> string option" where
  "re_search r s = search_from r None s"

text \<open>\<open>(w1|w2|...)\<close>: an alternation of literals, in the order written.\<close>

fun alts :: "string list \<Rightarrow> regex" where
  "alts [] = Cls (\<lambda>c. False)"
| "alts [w] = Lit w"
| "alts (w # ws) = Alt (Lit w) (alts ws)"

text \<open>The dot matches every character but the line feed.\<close>

definition dot :: regex where
  "dot = Cls (\<lambda>c. ord c \<noteq> 10)"

text \<open>\<open>(a1|a2|...).{0,15}(b1|b2|...)\<close>, the shape of every entry-method pattern.\<close>

definition near :: "string list \<Rightarrow> string list \<Rightarrow> regex" where
  "near as bs = Seq (alts as) (Seq (Rep 0 15 dot) (alts bs))"

section \<open>Deterministic extraction (extractors.py)\<close>

text \<open>The dictionary \<open>entry_methods\<close>, in insertion order, which is its iteration order.\<close>

definition entry_methods :: "(string \<times> regex) list" where
  "entry_methods =
    [(''window_smash'', near [''broke'', ''smashed'', ''shattered'', ''broken''] [''window'', ''glass'']),
     (''door_pry'', near [''pried'', ''forced'', ''jimmied'', ''pry''] [''door'', ''entry'']),
     (''door_kick'', near [''kicked'', ''boot'', ''kick''] [''door'']),
     (''lock_pick'', near [''picked'', ''pick''] [''lock'']),
     (''unlocked'', near [''unlocked'', ''open'', ''unsecured''] [''door'', ''window'', ''entry'']),
     (''cut_screen'', near [''cut'', ''sliced''] [''screen'', ''mesh'']),
     (''garage_door'', near [''garage'', ''overhead''] [''door'']),
     (''unknown'', near [''unknown'', ''undetermined''] [''entry'', ''method'', ''access''])]"

text \<open>The loop of \<open>extract_entry_method_regex\<close> over the rules, on the lower-cased narrative.\<close>

fun entry_method_loop :: "(string \<times> regex) list \<Rightarrow> string \<Rightarrow> string" where
  "entry_method_loop [] narrative_lower = ''Not specified''"
| "entry_method_loop ((method, pattern) # rest) narrative_lower =
     (if re_search pattern narrative_lower \<noteq> None
      then str_replace_char (CHR ''_'') (CHR '' '') method
      else entry_method_loop rest narrative_lower)"

definition extract_entry_method_regex :: "string \<Rightarrow> string" where
  "extract_entry_method_regex narrative = entry_method_loop entry_methods (str_lower narrative)"

text \<open>\<open>r1 r2 ... rn\<close>: the sequence of the parts of a pattern.\<close>

fun seqs :: "regex list \<Rightarrow> regex" where
  "seqs [] = Lit []"
| "seqs [r] = r"
| "seqs (r # rs) = Seq r (seqs rs)"

text \<open>The class \<open>[-\s]\<close>: a hyphen or a white-space character.\<close>

definition is_separator :: "char \<Rightarrow> bool" where
  "is_separator c = (c = CHR ''-'' \<or> is_space c)"

text \<open>The list \<open>patterns\<close> of \<open>extract_license_plate_regex\<close>.\<close>

definition plate_patterns :: "regex list" where
  "plate_patterns =
    [seqs [WordB, Rep 2 3 (Cls is_upper), Rep 0 1 (Cls is_separator), Rep 3 4 (Cls is_digit), WordB],
     seqs [WordB, Cls is_digit, Rep 2 3 (Cls is_upper), Rep 0 1 (Cls is_separator),
           Rep 3 3 (Cls is_digit), WordB],
     seqs [WordB, Rep 3 3 (Cls is_upper), Rep 0 1 (Cls is_separator), Rep 4 4 (Cls is_digit), WordB]]"

fun plate_loop :: "regex list \<Rightarrow> string \<Rightarrow> string option" where
  "plate_loop [] narrative = None"
| "plate_loop (pattern # rest) narrative =
     (case re_search pattern (str_upper narrative) of
        Some m \<Rightarrow> Some (str_remove (CHR ''-'') (str_remove (CHR '' '') m))
      | None \<Rightarrow> plate_loop rest narrative)"

definition extract_license_plate_regex :: "string \<Rightarrow> string option" where
  "extract_license_plate_regex narrative = plate_loop plate_patterns narrative"

section \<open>Python values\<close>

text \<open>
  The values \<open>json.loads\<close> produces and the row pipeline handles. A dict is an association
  list in insertion order, read at the first binding of a key. A float is kept as a
  rational: the model only asks whether it is zero (a non-finite float behaves as any
  non-zero one).
\<close>

datatype pyval =
    PNone
  | PBool bool
  | PInt int
  | PFloat rat
  | PStr string
  | PList "pyval list"
  | PDict "(string \<times> pyval) list"

text \<open>Truth value testing, as \<open>if v:\<close>, \<open>not v\<close> and \<open>any(...)\<close> do it.\<close>

fun truthy :: "pyval \<Rightarrow> bool" where
  "truthy PNone = False"
| "truthy (PBool b) = b"
| "truthy (PInt i) = (i \<noteq> 0)"
| "truthy (PFloat q) = (q \<noteq> 0)"
| "truthy (PStr s) = (s \<noteq> [])"
| "truthy (PList xs) = (xs \<noteq> [])"
| "truthy (PDict d) = (d \<noteq> [])"

type_synonym pydict = "(string \<times> pyval) list"

text \<open>\<open>k in d\<close>, \<open>d.get(k)\<close>, \<open>d.values()\<close> and \<open>d[k] = v\<close>.\<close>

definition dict_has :: "pydict \<Rightarrow> string \<Rightarrow> bool" where
  "dict_has d k = (map_of d k \<noteq> None)"

definition dict_get :: "pydict \<Rightarrow> string \<Rightarrow> pyval" where
  "dict_get d k = (case map_of d k of None \<Rightarrow> PNone | Some v \<Rightarrow> v)"

definition dict_values :: "pydict \<Rightarrow> pyval list" where
  "dict_values d = map snd (AList.clearjunk d)"

definition dict_set :: "pydict \<Rightarrow> string \<Rightarrow> pyval \<Rightarrow> pydict" where
  "dict_set d k v = AList.update k v d"

text \<open>An \<open>Optional[str]\<close> as a Python value.\<close>

definition opt_str :: "string option \<Rightarrow> pyval" where
  "opt_str x = (case x of None \<Rightarrow> PNone | Some s \<Rightarrow> PStr s)"

section \<open>Vehicle and fallback extraction\<close>

definition makes :: "string list" where
  "makes =
    [''honda'', ''toyota'', ''ford'', ''chevrolet'', ''chevy'', ''nissan'',
     ''bmw'', ''mercedes'', ''tesla'', ''hyundai'', ''kia'', ''mazda'',
     ''dodge'', ''jeep'', ''ram'', ''gmc'', ''volkswagen'', ''vw'', ''audi'',
     ''lexus'', ''acura'', ''infiniti'', ''subaru'', ''volvo'']"

definition colors :: "string list" where
  "colors =
    [''black'', ''white'', ''red'', ''blue'', ''silver'', ''grey'', ''gray'',
     ''green'', ''yellow'', ''orange'', ''brown'', ''tan'', ''beige'',
     ''gold'', ''maroon'', ''purple'']"

text \<open>
  The two loops of \<open>extract_vehicle_regex\<close> have the same body: the first word of the
  list found as a whole word (\<open>\b word \b\<close>) in the lower-cased narrative, title-cased.
\<close>

fun word_loop :: "string list \<Rightarrow> string \<Rightarrow> string option" where
  "word_loop [] narrative_lower = None"
| "word_loop (w # ws) narrative_lower =
     (if re_search (seqs [WordB, Lit w, WordB]) narrative_lower \<noteq> None
      then Some (str_title w)
      else word_loop ws narrative_lower)"

definition extract_vehicle_regex :: "string \<Rightarrow> pydict" where
  "extract_vehicle_regex narrative =
     (let result = [(''make'', PNone), (''model'', PNone), (''color'', PNone), (''plate'', PNone)];
          narrative_lower = str_lower narrative;
          result = (case word_loop makes narrative_lower of
                      Some m \<Rightarrow> dict_set result ''make'' (PStr m) | None \<Rightarrow> result);
          result = (case word_loop colors narrative_lower of
                      Some c \<Rightarrow> dict_set result ''color'' (PStr c) | None \<Rightarrow> result)
      in dict_set result ''plate'' (opt_str (extract_license_plate_regex narrative)))"

definition fallback_regex_extraction :: "string \<Rightarrow> pyval" where
  "fallback_regex_extraction narrative =
     (let vehicle = extract_vehicle_regex narrative
      in PDict [(''method_of_entry'', PStr (extract_entry_method_regex narrative)),
                (''suspects'', PList []),
                (''vehicles'', PList (if list_ex truthy (dict_values vehicle)
                                      then [PDict vehicle] else []))])"

section \<open>Remote extraction and the retry wrapper\<close>

text \<open>The settings of \<open>config.py\<close> that the wrapper reads.\<close>

definition MAX_RETRIES :: int where
  "MAX_RETRIES = 3"

definition RETRY_DELAY :: nat where
  "RETRY_DELAY = 1"

text \<open>
  What one request to the remote service comes to. \<open>Failure\<close> stands for every exception
  raised in the \<open>try\<close> block of \<open>extract_with_llm\<close> up to and including \<open>json.loads\<close> (a
  network error, a timeout, an error status, a response without the expected fields, text
  that is not JSON); \<open>Payload v\<close> is the value \<open>json.loads\<close> returns for the response with
  its code fences removed. The service is a parameter: its reply to the \<open>k\<close>-th request of
  a run, for a narrative and a crime code.
\<close>

datatype reply = Failure | Payload pyval

type_synonym service = "nat \<Rightarrow> string \<Rightarrow> string \<Rightarrow> reply"

datatype exn = LLMExtractionFailed | AttributeError

text \<open>
  The observable effects, in order: a request to the service, a \<open>time.sleep\<close> with its
  delay, and the warning printed before falling back, with the number of attempts.
\<close>

datatype event = ClientCall string string | Sleep nat | Warning int

type_synonym trace = "event list"

fun is_call :: "event \<Rightarrow> bool" where
  "is_call (ClientCall n c) = True"
| "is_call e = False"


definition calls_made :: "trace \<Rightarrow> nat" where
  "calls_made t = length (filter is_call t)"


text \<open>\<open>if key not in extracted_data: extracted_data[key] = default\<close>.\<close>

definition backfill :: "string \<Rightarrow> pyval \<Rightarrow> pydict \<Rightarrow> pydict" where
  "backfill k v d = (if dict_has d k then d else d @ [(k, v)])"

definition extract_with_llm :: "service \<Rightarrow> string \<Rightarrow> string \<Rightarrow> trace \<Rightarrow> (exn + pyval) \<times> trace" where
  "extract_with_llm svc narrative crime_code t =
     (let t' = t @ [ClientCall narrative crime_code]
      in case svc (calls_made t) narrative crime_code of
           Failure \<Rightarrow> (Inl LLMExtractionFailed, t')
         | Payload extracted_data \<Rightarrow>
             (case extracted_data of
                PDict d \<Rightarrow>
                  (Inr (PDict (backfill ''vehicles'' (PList [])
                                (backfill ''suspects'' (PList [])
                                  (backfill ''method_of_entry'' PNone d)))), t')
              | _ \<Rightarrow> (Inl LLMExtractionFailed, t')))"

text \<open>\<open>range(n)\<close>.\<close>

definition py_range :: "int \<Rightarrow> int list" where
  "py_range n = [0..n - 1]"

text \<open>
  The \<open>for attempt in range(retries)\<close> loop of \<open>extract_with_llm_safe\<close>: it returns the
  remote result of the first attempt that succeeds, or nothing when the attempts are
  used up.
\<close>

fun retry_loop ::
  "service \<Rightarrow> string \<Rightarrow> string \<Rightarrow> int \<Rightarrow> int list \<Rightarrow> trace \<Rightarrow> pyval option \<times> trace" where
  "retry_loop svc narrative crime_code retries [] t = (None, t)"
| "retry_loop svc narrative crime_code retries (attempt # rest) t =
     (case extract_with_llm svc narrative crime_code t of
        (Inr extracted, t') \<Rightarrow> (Some extracted, t')
      | (Inl e, t') \<Rightarrow>
          retry_loop svc narrative crime_code retries rest
            (if attempt < retries - 1 then t' @ [Sleep RETRY_DELAY] else t'))"

definition extract_with_llm_safe ::
  "service \<Rightarrow> string \<Rightarrow> string \<Rightarrow> int option \<Rightarrow> trace \<Rightarrow> pyval \<times> trace" where
  "extract_with_llm_safe svc narrative crime_code retries_arg t =
     (let retries = (case retries_arg of None \<Rightarrow> MAX_RETRIES | Some r \<Rightarrow> r)
      in case retry_loop svc narrative crime_code retries (py_range retries) t of
           (Some extracted, t') \<Rightarrow> (extracted, t')
         | (None, t') \<Rightarrow> (fallback_regex_extraction narrative, t' @ [Warning retries]))"

section \<open>Utility functions\<close>

text \<open>
  Both take whatever value the result holds. A value that is truthy, not \<open>'null'\<close> and not a
  string has no \<open>strip\<close> or \<open>upper\<close> method: the call raises \<open>AttributeError\<close>.
\<close>

definition clean_suspect_description :: "pyval \<Rightarrow> exn + pyval" where
  "clean_suspect_description description =
     (if \<not> truthy description \<or> description = PStr ''null'' then Inr PNone
      else case description of
             PStr s \<Rightarrow> Inr (PStr (take 100 (str_strip s)))
           | _ \<Rightarrow> Inl AttributeError)"

definition format_license_plate :: "pyval \<Rightarrow> exn + pyval" where
  "format_license_plate plate =
     (if \<not> truthy plate \<or> plate = PStr ''null'' then Inr PNone
      else case plate of
             PStr s \<Rightarrow> Inr (PStr (str_remove (CHR ''-'') (str_remove (CHR '' '') (str_upper s))))
           | _ \<Rightarrow> Inl AttributeError)"

section \<open>The row pipeline (main.py)\<close>

text \<open>
  A row of the table: the textual forms \<open>str(row[...])\<close> of its two input cells, which is
  all \<open>process_row\<close> reads, and the seven extraction columns. The counters of
  \<open>self.stats\<close>.
\<close>

record row =
  crime_code_text :: string
  narrative_text :: string
  method_of_entry :: pyval
  suspect_1 :: pyval
  suspect_2 :: pyval
  vehicle_make :: pyval
  vehicle_model :: pyval
  vehicle_color :: pyval
  vehicle_plate :: pyval

record stats =
  total_rows :: nat
  successful :: nat
  failed :: nat
  method_extracted :: nat
  suspects_found :: nat
  vehicles_found :: nat

text \<open>\<open>__init__\<close> sets every counter to zero; \<open>initialize_output_columns\<close> sets every
  extraction column to \<open>None\<close>.\<close>

definition init_stats :: stats where
  "init_stats = \<lparr>total_rows = 0, successful = 0, failed = 0, method_extracted = 0,
                 suspects_found = 0, vehicles_found = 0\<rparr>"

definition initialize_output_columns :: "string \<Rightarrow> string \<Rightarrow> row" where
  "initialize_output_columns code text =
     \<lparr>crime_code_text = code, narrative_text = text, method_of_entry = PNone,
      suspect_1 = PNone, suspect_2 = PNone, vehicle_make = PNone, vehicle_model = PNone,
      vehicle_color = PNone, vehicle_plate = PNone\<rparr>"

text \<open>The skip test: \<open>not narrative or narrative.lower() in ['nan', 'none', '']\<close>.\<close>

definition skip_narrative :: "string \<Rightarrow> bool" where
  "skip_narrative text = (text = [] \<or> str_lower text \<in> set [''nan'', ''none'', []])"

text \<open>\<open>if extracted.get('method_of_entry'): ...\<close>.\<close>

definition store_method :: "pydict \<Rightarrow> row \<times> stats \<Rightarrow> row \<times> stats" where
  "store_method extracted rs =
     (if truthy (dict_get extracted ''method_of_entry'')
      then (fst rs\<lparr>method_of_entry := dict_get extracted ''method_of_entry''\<rparr>,
            snd rs\<lparr>method_extracted := method_extracted (snd rs) + 1\<rparr>)
      else rs)"

text \<open>\<open>self.df.at[idx, f'suspect_{i+1}'] = desc\<close>, for the positions 0 and 1 of the slice.\<close>

definition set_suspect :: "nat \<Rightarrow> pyval \<Rightarrow> row \<Rightarrow> row" where
  "set_suspect i desc r = (if i = 0 then r\<lparr>suspect_1 := desc\<rparr> else r\<lparr>suspect_2 := desc\<rparr>)"

text \<open>
  The loop over \<open>enumerate(extracted['suspects'][:2])\<close>. It returns the row and counters
  as they are when it ends, and the exception that ended it, if one did.
\<close>

fun suspects_loop :: "(nat \<times> pyval) list \<Rightarrow> row \<times> stats \<Rightarrow> (row \<times> stats) \<times> exn option" where
  "suspects_loop [] rs = (rs, None)"
| "suspects_loop ((i, suspect) # rest) rs =
     (case suspect of
        PDict sd \<Rightarrow>
          (if dict_has sd ''description'' then
             (case clean_suspect_description (dict_get sd ''description'') of
                Inl e \<Rightarrow> (rs, Some e)
              | Inr desc \<Rightarrow>
                  (if truthy desc
                   then suspects_loop rest
                          (set_suspect i desc (fst rs),
                           if i = 0 then snd rs\<lparr>suspects_found := suspects_found (snd rs) + 1\<rparr>
                           else snd rs)
                   else suspects_loop rest rs))
           else suspects_loop rest rs)
      | _ \<Rightarrow> suspects_loop rest rs)"

definition store_suspects :: "pydict \<Rightarrow> row \<times> stats \<Rightarrow> (row \<times> stats) \<times> exn option" where
  "store_suspects extracted rs =
     (case dict_get extracted ''suspects'' of
        PList xs \<Rightarrow> (if xs \<noteq> [] then suspects_loop (enumerate 0 (take 2 xs)) rs else (rs, None))
      | _ \<Rightarrow> (rs, None))"

text \<open>The loop over \<open>extracted['vehicles']\<close>, left at the first non-empty vehicle.\<close>

fun vehicles_loop :: "pyval list \<Rightarrow> row \<times> stats \<Rightarrow> (row \<times> stats) \<times> exn option" where
  "vehicles_loop [] rs = (rs, None)"
| "vehicles_loop (vehicle # rest) rs =
     (case vehicle of
        PDict vd \<Rightarrow>
          (if list_ex truthy (dict_values vd) then
             (let r = fst rs\<lparr>vehicle_make := dict_get vd ''make'',
                             vehicle_model := dict_get vd ''model'',
                             vehicle_color := dict_get vd ''color''\<rparr>;
                  plate = dict_get vd ''plate'';
                  found = snd rs\<lparr>vehicles_found := vehicles_found (snd rs) + 1\<rparr>
              in if truthy plate
                 then (case format_license_plate plate of
                         Inl e \<Rightarrow> ((r, snd rs), Some e)
                       | Inr p \<Rightarrow> ((r\<lparr>vehicle_plate := p\<rparr>, found), None))
                 else ((r, found), None))
           else vehicles_loop rest rs)
      | _ \<Rightarrow> vehicles_loop rest rs)"

definition store_vehicles :: "pydict \<Rightarrow> row \<times> stats \<Rightarrow> (row \<times> stats) \<times> exn option" where
  "store_vehicles extracted rs =
     (case dict_get extracted ''vehicles'' of
        PList xs \<Rightarrow> (if xs \<noteq> [] then vehicles_loop xs rs else (rs, None))
      | _ \<Rightarrow> (rs, None))"

text \<open>The extraction result is a dict on every path; \<open>as_dict\<close> reads it.\<close>

definition as_dict :: "pyval \<Rightarrow> pydict" where
  "as_dict v = (case v of PDict d \<Rightarrow> d | _ \<Rightarrow> [])"

text \<open>
  \<open>process_row\<close>: whether the row succeeded, the row, the counters and the trace after it.
  An exception raised while the result is stored is caught: the row fails, and what was
  stored before stays.
\<close>

definition process_row ::
  "service \<Rightarrow> row \<Rightarrow> stats \<Rightarrow> trace \<Rightarrow> bool \<times> row \<times> stats \<times> trace" where
  "process_row svc r st t =
     (let crime_code = crime_code_text r; narrative = narrative_text r
      in if skip_narrative narrative then (False, r, st, t)
         else
           (let (extracted_value, t') = extract_with_llm_safe svc narrative crime_code None t;
                extracted = as_dict extracted_value;
                rs1 = store_method extracted (r, st)
            in case store_suspects extracted rs1 of
                 (rs2, Some e) \<Rightarrow> (False, fst rs2, snd rs2, t')
               | (rs2, None) \<Rightarrow>
                   (case store_vehicles extracted rs2 of
                      (rs3, Some e) \<Rightarrow> (False, fst rs3, snd rs3, t')
                    | (rs3, None) \<Rightarrow> (True, fst rs3, snd rs3, t'))))"

text \<open>The body of the loop of \<open>process_all\<close>, and the loop over the rows in order.\<close>

definition process_one :: "service \<Rightarrow> row \<Rightarrow> stats \<Rightarrow> trace \<Rightarrow> row \<times> stats \<times> trace" where
  "process_one svc r st t =
     (case process_row svc r st t of
        (success, r', st', t') \<Rightarrow>
          (r', if success then st'\<lparr>successful := successful st' + 1\<rparr>
               else st'\<lparr>failed := failed st' + 1\<rparr>, t'))"

fun process_rows :: "service \<Rightarrow> row list \<Rightarrow> stats \<Rightarrow> trace \<Rightarrow> row list \<times> stats \<times> trace" where
  "process_rows svc [] st t = ([], st, t)"
| "process_rows svc (r # rest) st t =
     (case process_one svc r st t of
        (r', st', t') \<Rightarrow>
          (case process_rows svc rest st' t' of
             (rs, st'', t'') \<Rightarrow> (r' # rs, st'', t'')))"

definition process_all :: "service \<Rightarrow> row list \<Rightarrow> stats \<Rightarrow> trace \<Rightarrow> row list \<times> stats \<times> trace" where
  "process_all svc df st t = process_rows svc df (st\<lparr>total_rows := length df\<rparr>) t"

section \<open>Notions of the specification\<close>

text \<open>
  Calling a second function on the result of a first: an exception of the first call
  ends the whole expression.
\<close>

definition then_call :: "exn + pyval \<Rightarrow> (pyval \<Rightarrow> exn + pyval) \<Rightarrow> exn + pyval" where
  "then_call x f = (case x of Inl e \<Rightarrow> Inl e | Inr v \<Rightarrow> f v)"

text \<open>The text \<open>format_license_plate\<close> computes for a string: upper case, separators dropped.\<close>

definition plate_text :: "string \<Rightarrow> string" where
  "plate_text s = str_remove (CHR ''-'') (str_remove (CHR '' '') (str_upper s))"

text \<open>Two texts are equal when letter case is ignored.\<close>

definition ci_equal :: "string \<Rightarrow> string \<Rightarrow> bool" where
  "ci_equal a b = (str_lower a = str_lower b)"

text \<open>The display form of a rule name: \<open>method.replace('_', ' ')\<close>.\<close>

definition label :: "string \<Rightarrow> string" where
  "label method = str_replace_char (CHR ''_'') (CHR '' '') method"

text \<open>The rule at position \<open>i\<close> of the table matches the lower-cased narrative.\<close>

definition rule_matches :: "nat \<Rightarrow> string \<Rightarrow> bool" where
  "rule_matches i narrative =
     (i < length entry_methods \<and> re_search (snd (entry_methods ! i)) (str_lower narrative) \<noteq> None)"

text \<open>An attribute of a vehicle is populated: it is a string, and not the empty one.\<close>

definition populated :: "pydict \<Rightarrow> string \<Rightarrow> bool" where
  "populated vehicle k = (case dict_get vehicle k of PStr s \<Rightarrow> s \<noteq> [] | _ \<Rightarrow> False)"


text \<open>
  The cleaned description of one suspect, and of the suspect at a position of the
  result: absent (\<open>None\<close>) when there is no such suspect, when the suspect is not a dict
  or has no description; an exception when cleaning the description raises one.
\<close>

definition suspect_at :: "pyval \<Rightarrow> exn + pyval" where
  "suspect_at suspect =
     (case suspect of
        PDict sd \<Rightarrow> if dict_has sd ''description''
                    then clean_suspect_description (dict_get sd ''description'') else Inr PNone
      | _ \<Rightarrow> Inr PNone)"

definition suspect_cell :: "pydict \<Rightarrow> nat \<Rightarrow> exn + pyval" where
  "suspect_cell extracted i =
     (case dict_get extracted ''suspects'' of
        PList xs \<Rightarrow> if i < length xs then suspect_at (xs ! i) else Inr PNone
      | _ \<Rightarrow> Inr PNone)"

text \<open>Storing a cleaned description at a position: nothing happens when it is falsy.\<close>

definition put_suspect :: "nat \<Rightarrow> pyval \<Rightarrow> row \<times> stats \<Rightarrow> row \<times> stats" where
  "put_suspect i c rs =
     (if truthy c
      then (set_suspect i c (fst rs),
            if i = 0 then snd rs\<lparr>suspects_found := suspects_found (snd rs) + 1\<rparr> else snd rs)
      else rs)"


section \<open>Characters and plates\<close>

lemma ord_char_of: "n < 256 \<Longrightarrow> ord (char_of n) = n"
  by (simp add: ord_def)

lemma ord_less_256: "ord c < 256"
  by (simp add: ord_def)

lemma upper_char_not_lower: "\<not> is_lower (upper_char c)"
  using ord_less_256 [of c] by (auto simp: upper_char_def is_lower_def ord_char_of)

lemma upper_char_fix: "\<not> is_lower c \<Longrightarrow> upper_char c = c"
  by (simp add: upper_char_def)

lemma str_upper_fix: "\<forall>c \<in> set s. \<not> is_lower c \<Longrightarrow> str_upper s = s"
  by (induction s) (simp_all add: str_upper_def upper_char_fix)

lemma str_upper_no_lower: "c \<in> set (str_upper s) \<Longrightarrow> \<not> is_lower c"
  by (auto simp: str_upper_def upper_char_not_lower)

lemma is_lower_n: "is_lower (CHR ''n'')"
  by (simp add: is_lower_def ord_def)

lemma format_clean_fixpoint:
  assumes "v \<noteq> []" "\<forall>c \<in> set v. \<not> is_lower c" "CHR '' '' \<notin> set v" "CHR ''-'' \<notin> set v"
  shows "format_license_plate (PStr v) = Inr (PStr v)"
proof -
  have nn: "v \<noteq> ''null''" using assms(2) is_lower_n by auto
  have up: "str_upper v = v" using assms(2) by (rule str_upper_fix)
  have rm: "str_remove (CHR ''-'') (str_remove (CHR '' '') v) = v"
    using assms(3,4) by (auto simp: str_remove_def filter_id_conv)
  show ?thesis using assms(1) nn by (simp add: format_license_plate_def up rm)
qed


lemma plate_text_no_lower: "c \<in> set (plate_text s) \<Longrightarrow> \<not> is_lower c"
  by (auto simp: plate_text_def str_remove_def dest: str_upper_no_lower)

lemma plate_text_no_sep: "CHR '' '' \<notin> set (plate_text s) \<and> CHR ''-'' \<notin> set (plate_text s)"
  by (auto simp: plate_text_def str_remove_def)

lemma format_license_plate_str:
  "format_license_plate (PStr s) =
     Inr (if s = [] \<or> s = ''null'' then PNone else PStr (plate_text s))"
  by (simp add: format_license_plate_def plate_text_def)

section \<open>The plate normalizer\<close>

text \<open>
  Claim C7, as amended. For every string \<open>p\<close> whose normalized form is not the empty
  string, normalizing the normalized form gives the normalized form again. (The empty and
  the \<open>'null'\<close> string normalize to \<open>None\<close>, and \<open>None\<close> normalizes to \<open>None\<close>.)
\<close>

theorem format_license_plate_idempotent_unless_empty:
  "format_license_plate (PStr p) \<noteq> Inr (PStr []) \<Longrightarrow>
     then_call (format_license_plate (PStr p)) format_license_plate = format_license_plate (PStr p)"
proof (cases "p = [] \<or> p = ''null''")
  case True
  then show ?thesis
    by (auto simp: then_call_def format_license_plate_def)
next
  case False
  assume ne: "format_license_plate (PStr p) \<noteq> Inr (PStr [])"
  from False have eq: "format_license_plate (PStr p) = Inr (PStr (plate_text p))"
    by (simp add: format_license_plate_str)
  with ne have "plate_text p \<noteq> []" by simp
  then have "format_license_plate (PStr (plate_text p)) = Inr (PStr (plate_text p))"
    using plate_text_no_lower [of _ p] plate_text_no_sep [of p]
    by (intro format_clean_fixpoint) auto
  then show ?thesis by (simp add: then_call_def eq)
qed

text \<open>Claim C7, witness: the plate \<open>ab-12 c\<close> normalizes to \<open>AB12C\<close>, a fixed point.\<close>

theorem format_license_plate_idempotent_unless_empty_witness:
  "format_license_plate (PStr ''ab-12 c'') \<noteq> Inr (PStr []) \<and>
   then_call (format_license_plate (PStr ''ab-12 c'')) format_license_plate
     = format_license_plate (PStr ''ab-12 c'') \<and>
   format_license_plate (PStr ''ab-12 c'') = Inr (PStr ''AB12C'')"
proof -
  have v: "format_license_plate (PStr ''ab-12 c'') = Inr (PStr ''AB12C'')" by code_simp
  then have h: "format_license_plate (PStr ''ab-12 c'') \<noteq> Inr (PStr [])" by simp
  show ?thesis
    using h v format_license_plate_idempotent_unless_empty [OF h] by simp
qed

text \<open>
  Claim C7 as stated fails for a string made of separators only: \<open>'-'\<close> normalizes to the
  empty string, and the empty string normalizes to \<open>None\<close>.
\<close>

theorem format_license_plate_not_idempotent:
  "then_call (format_license_plate (PStr ''-'')) format_license_plate
     \<noteq> format_license_plate (PStr ''-'')"
  by code_simp

section \<open>The skip rule\<close>

lemma skip_narrative_ci:
  "skip_narrative n = (n = [] \<or> ci_equal n ''nan'' \<or> ci_equal n ''none'' \<or> ci_equal n [])"
proof -
  have "str_lower ''nan'' = ''nan''" "str_lower ''none'' = ''none''" "str_lower [] = []"
    by code_simp+
  then show ?thesis by (auto simp: skip_narrative_def ci_equal_def)
qed

text \<open>
  Claim C4. A row whose narrative is empty, or equals \<open>nan\<close>, \<open>none\<close> or the empty text when
  letter case is ignored, leaves the trace as it was (no request to the service, no
  sleep, no fallback), leaves the row as it was, and adds one to the failed counter and
  to no other counter.
\<close>

theorem skipped_row_counts_failed_only:
  assumes "narrative_text r = [] \<or> ci_equal (narrative_text r) ''nan''
           \<or> ci_equal (narrative_text r) ''none'' \<or> ci_equal (narrative_text r) []"
  shows "process_one svc r st t = (r, st\<lparr>failed := failed st + 1\<rparr>, t)"
  using assms by (simp add: process_one_def process_row_def skip_narrative_ci)

text \<open>Claim C4, witness: the narrative \<open>NaN\<close>.\<close>

theorem skipped_row_counts_failed_only_witness:
  "ci_equal (narrative_text (initialize_output_columns ''220'' ''NaN'')) ''nan'' \<and>
   process_one (\<lambda>k n c. Payload (PDict [])) (initialize_output_columns ''220'' ''NaN'') init_stats []
     = (initialize_output_columns ''220'' ''NaN'', init_stats\<lparr>failed := 1\<rparr>, [])"
proof -
  have h: "ci_equal (narrative_text (initialize_output_columns ''220'' ''NaN'')) ''nan''"
    by code_simp
  have f: "failed init_stats = 0" by (simp add: init_stats_def)
  show ?thesis
    using h skipped_row_counts_failed_only
      [of "initialize_output_columns ''220'' ''NaN''" "\<lambda>k n c. Payload (PDict [])" init_stats "[]"]
    by (simp add: f)
qed

section \<open>The matcher\<close>


declare matches.simps(6) [simp del]

lemma matches_Seq_I:
  "e1 \<in> set (matches a st) \<Longrightarrow> e \<in> set (matches b e1) \<Longrightarrow> e \<in> set (matches (Seq a b) st)"
  by auto

lemma matches_length:
  "e \<in> set (matches r st) \<Longrightarrow> length (snd e) \<le> length (snd st)"
proof (induction r st arbitrary: e rule: matches.induct)
  case (1 w st)
  then show ?case by (auto split: if_splits)
next
  case (2 p st)
  then show ?case by (cases "snd st") (auto split: if_splits)
next
  case (3 st)
  then show ?case by (auto split: if_splits)
next
  case (4 a b st)
  from "4.prems" obtain e1 where e1: "e1 \<in> set (matches a st)" and e: "e \<in> set (matches b e1)"
    by auto
  from "4.IH"(1) [OF e1] "4.IH"(2) [OF e1 e] show ?case by simp
next
  case (5 a b st)
  from "5.prems" have "e \<in> set (matches a st) \<or> e \<in> set (matches b st)" by simp
  then show ?case using "5.IH" by blast
next
  case (6 lo hi r st)
  show ?case
  proof (cases "hi = 0")
    case True
    with "6.prems" show ?thesis by (subst (asm) matches.simps(6)) (auto split: if_splits)
  next
    case False
    from "6.prems" False consider
      (step) e1 where "e1 \<in> set (matches r st)" "e \<in> set (matches (Rep (lo - 1) (hi - 1) r) e1)"
      | (stop) "e = st"
      by (subst (asm) matches.simps(6)) (auto split: if_splits)
    then show ?thesis
    proof cases
      case step
      from "6.IH"(1) [OF False step(1)] "6.IH"(2) [OF False step(1) step(2)]
      show ?thesis by simp
    next
      case stop
      then show ?thesis by simp
    qed
  qed
qed

lemma search_from_subset: "search_from r p s = Some m \<Longrightarrow> set m \<subseteq> set s"
proof (induction s arbitrary: p)
  case Nil
  then show ?case by (auto split: list.splits)
next
  case (Cons c s)
  show ?case
  proof (cases "matches r (p, c # s)")
    case Nil
    with Cons.prems have "search_from r (Some c) s = Some m" by simp
    from Cons.IH [OF this] show ?thesis by auto
  next
    case (Cons e es)
    with Cons.prems have "m = take (length (c # s) - length (snd e)) (c # s)" by simp
    then show ?thesis using set_take_subset [of _ "c # s"] by blast
  qed
qed

lemma search_from_found:
  "\<forall>q. matches r (q, s) \<noteq> [] \<Longrightarrow> search_from r p (w @ s) \<noteq> None"
proof (induction w arbitrary: p)
  case Nil
  then show ?case by (cases s) (auto split: list.splits)
next
  case (Cons a w)
  then show ?case by (auto split: list.splits)
qed

lemma alts_member:
  "a \<in> set as \<Longrightarrow> a \<noteq> [] \<Longrightarrow> (Some (last a), s) \<in> set (matches (alts as) (p, a @ s))"
  by (induction as rule: alts.induct) auto

lemma rep_cls_skip:
  "length w \<le> hi \<Longrightarrow> \<forall>c \<in> set w. P c \<Longrightarrow>
     \<exists>q. (q, s) \<in> set (matches (Rep 0 hi (Cls P)) (p, w @ s))"
proof (induction w arbitrary: hi p)
  case Nil
  have "(p, s) \<in> set (matches (Rep 0 hi (Cls P)) (p, [] @ s))"
    by (subst matches.simps(6)) simp
  then show ?case by blast
next
  case (Cons c w)
  then have hi: "hi \<noteq> 0" and le: "length w \<le> hi - 1" and pc: "P c" and pw: "\<forall>c \<in> set w. P c"
    by auto
  from Cons.IH [OF le pw] obtain q where
    "(q, s) \<in> set (matches (Rep 0 (hi - 1) (Cls P)) (Some c, w @ s))" by blast
  then have "(q, s) \<in> set (matches (Rep 0 hi (Cls P)) (p, (c # w) @ s))"
    using hi pc by (subst matches.simps(6)) simp
  then show ?case by blast
qed

lemma near_match:
  assumes "a \<in> set as" "a \<noteq> []" "b \<in> set bs" "b \<noteq> []"
    and "length w \<le> 15" "\<forall>c \<in> set w. ord c \<noteq> 10"
  shows "matches (near as bs) (p, a @ w @ b @ s) \<noteq> []"
proof -
  have 1: "(Some (last a), w @ b @ s) \<in> set (matches (alts as) (p, a @ w @ b @ s))"
    using assms(1,2) by (rule alts_member)
  obtain q where 2: "(q, b @ s) \<in> set (matches (Rep 0 15 dot) (Some (last a), w @ b @ s))"
    using rep_cls_skip [OF assms(5), of "\<lambda>c. ord c \<noteq> 10" "b @ s" "Some (last a)"] assms(6)
    by (auto simp: dot_def)
  have 3: "(Some (last b), s) \<in> set (matches (alts bs) (q, b @ s))"
    using assms(3,4) by (rule alts_member)
  have "(Some (last b), s) \<in> set (matches (near as bs) (p, a @ w @ b @ s))"
    unfolding near_def by (rule matches_Seq_I [OF 1]) (rule matches_Seq_I [OF 2 3])
  then show ?thesis by auto
qed

lemma near_found:
  assumes "a \<in> set as" "a \<noteq> []" "b \<in> set bs" "b \<noteq> []"
    and "length w \<le> 15" "\<forall>c \<in> set w. ord c \<noteq> 10"
  shows "re_search (near as bs) (pre @ a @ w @ b @ s) \<noteq> None"
  unfolding re_search_def
  by (rule search_from_found) (simp add: near_match [OF assms])


lemma rep_cls_first:
  assumes "0 < lo" and "e \<in> set (matches (Rep lo hi (Cls P)) (p, s))"
  shows "\<exists>c s'. s = c # s' \<and> P c \<and> length (snd e) \<le> length s'"
proof (cases "hi = 0")
  case True
  with assms show ?thesis by (subst (asm) matches.simps(6)) simp
next
  case False
  with assms obtain e1 where e1: "e1 \<in> set (matches (Cls P) (p, s))"
    and e: "e \<in> set (matches (Rep (lo - 1) (hi - 1) (Cls P)) e1)"
    by (subst (asm) matches.simps(6)) auto
  from e1 obtain c s' where s: "s = c # s'" and pc: "P c" and e1_eq: "e1 = (Some c, s')"
    by (cases s) (auto split: if_splits)
  from matches_length [OF e] e1_eq have "length (snd e) \<le> length s'" by simp
  with s pc show ?thesis by blast
qed

lemma matches_WordB_Seq:
  "e \<in> set (matches (Seq WordB r) st) \<Longrightarrow> e \<in> set (matches r st)"
  by (auto split: if_splits)

lemma matches_Seq_E:
  "e \<in> set (matches (Seq a b) st) \<Longrightarrow>
     \<exists>e1. e1 \<in> set (matches a st) \<and> e \<in> set (matches b e1)"
  by auto

lemma plate_pattern_first:
  assumes "pat \<in> set plate_patterns" and "e \<in> set (matches pat (p, s))"
  shows "\<exists>c s'. s = c # s' \<and> (is_upper c \<or> is_digit c) \<and> length (snd e) \<le> length s'"
proof -
  from assms(1) consider
      (a) r where "pat = Seq WordB (Seq (Rep 2 3 (Cls is_upper)) r)"
    | (b) r where "pat = Seq WordB (Seq (Cls is_digit) r)"
    | (c) r where "pat = Seq WordB (Seq (Rep 3 3 (Cls is_upper)) r)"
    by (auto simp: plate_patterns_def)
  then show ?thesis
  proof cases
    case a
    with assms(2) have "e \<in> set (matches (Seq (Rep 2 3 (Cls is_upper)) r) (p, s))"
      by (simp only: matches_WordB_Seq)
    then obtain e1 where e1: "e1 \<in> set (matches (Rep 2 3 (Cls is_upper)) (p, s))"
      and e: "e \<in> set (matches r e1)" using matches_Seq_E by blast
    from rep_cls_first [OF _ e1] obtain c s' where "s = c # s'" "is_upper c"
      "length (snd e1) \<le> length s'" by auto
    with matches_length [OF e] show ?thesis by auto
  next
    case b
    with assms(2) have "e \<in> set (matches (Seq (Cls is_digit) r) (p, s))"
      by (simp only: matches_WordB_Seq)
    then obtain e1 where e1: "e1 \<in> set (matches (Cls is_digit) (p, s))"
      and e: "e \<in> set (matches r e1)" using matches_Seq_E by blast
    from e1 obtain c s' where "s = c # s'" "is_digit c" "e1 = (Some c, s')"
      by (cases s) (auto split: if_splits)
    with matches_length [OF e] show ?thesis by auto
  next
    case c
    with assms(2) have "e \<in> set (matches (Seq (Rep 3 3 (Cls is_upper)) r) (p, s))"
      by (simp only: matches_WordB_Seq)
    then obtain e1 where e1: "e1 \<in> set (matches (Rep 3 3 (Cls is_upper)) (p, s))"
      and e: "e \<in> set (matches r e1)" using matches_Seq_E by blast
    from rep_cls_first [OF _ e1] obtain c s' where "s = c # s'" "is_upper c"
      "length (snd e1) \<le> length s'" by auto
    with matches_length [OF e] show ?thesis by auto
  qed
qed

lemma search_plate_alnum:
  assumes "pat \<in> set plate_patterns"
  shows "search_from pat p s = Some m \<Longrightarrow> \<exists>c \<in> set m. is_upper c \<or> is_digit c"
proof (induction s arbitrary: p)
  case Nil
  have "matches pat (p, []) = []"
  proof (cases "matches pat (p, [])")
    case (Cons e es)
    then have "e \<in> set (matches pat (p, []))" by simp
    from plate_pattern_first [OF assms this] show ?thesis by simp
  qed simp
  with Nil show ?case by simp
next
  case (Cons c s)
  show ?case
  proof (cases "matches pat (p, c # s)")
    case Nil
    with Cons.prems have "search_from pat (Some c) s = Some m" by simp
    from Cons.IH [OF this] show ?thesis .
  next
    case (Cons e es)
    then have "e \<in> set (matches pat (p, c # s))" by simp
    from plate_pattern_first [OF assms this]
    have c: "is_upper c \<or> is_digit c" and le: "length (snd e) \<le> length s" by auto
    from Cons Cons.prems have "m = take (length (c # s) - length (snd e)) (c # s)" by simp
    with le have "m = c # take (length s - length (snd e)) s"
      by (simp add: Suc_diff_le)
    with c show ?thesis by auto
  qed
qed

lemma not_sep_alnum: "is_upper c \<or> is_digit c \<Longrightarrow> c \<noteq> CHR '' '' \<and> c \<noteq> CHR ''-''"
  by (auto simp: is_upper_def is_digit_def ord_def)

lemma plate_loop_result:
  "plate_loop pats narrative = Some v \<Longrightarrow> set pats \<subseteq> set plate_patterns \<Longrightarrow>
     \<exists>m. v = str_remove (CHR ''-'') (str_remove (CHR '' '') m)
        \<and> set m \<subseteq> set (str_upper narrative)
        \<and> (\<exists>c \<in> set m. is_upper c \<or> is_digit c)"
proof (induction pats)
  case Nil
  then show ?case by simp
next
  case (Cons pat pats)
  show ?case
  proof (cases "re_search pat (str_upper narrative)")
    case None
    with Cons show ?thesis by simp
  next
    case (Some m)
    with Cons.prems have v: "v = str_remove (CHR ''-'') (str_remove (CHR '' '') m)" by simp
    from Some have sf: "search_from pat None (str_upper narrative) = Some m"
      by (simp add: re_search_def)
    from Cons.prems have "pat \<in> set plate_patterns" by simp
    from search_plate_alnum [OF this sf] search_from_subset [OF sf] v show ?thesis by blast
  qed
qed

lemma plate_properties:
  assumes "extract_license_plate_regex narrative = Some v"
  shows "v \<noteq> []" and "\<forall>c \<in> set v. \<not> is_lower c"
    and "CHR '' '' \<notin> set v" and "CHR ''-'' \<notin> set v"
proof -
  from assms obtain m where v: "v = str_remove (CHR ''-'') (str_remove (CHR '' '') m)"
    and sub: "set m \<subseteq> set (str_upper narrative)"
    and ex: "\<exists>c \<in> set m. is_upper c \<or> is_digit c"
    using plate_loop_result [of plate_patterns narrative v]
    by (auto simp: extract_license_plate_regex_def)
  from ex obtain c where "c \<in> set m" "is_upper c \<or> is_digit c" by blast
  with not_sep_alnum [of c] have "c \<in> set v" by (simp add: v str_remove_def)
  then show "v \<noteq> []" by auto
  show "\<forall>c \<in> set v. \<not> is_lower c"
    using sub str_upper_no_lower by (auto simp: v str_remove_def)
  show "CHR '' '' \<notin> set v" "CHR ''-'' \<notin> set v" by (simp_all add: v str_remove_def)
qed

text \<open>
  Claim C10. Whenever the deterministic plate extractor returns a value, that value is
  upper case and has no space and no hyphen, and \<open>format_license_plate\<close> returns it
  unchanged.
\<close>

theorem extracted_plate_is_normal:
  assumes "extract_license_plate_regex narrative = Some v"
  shows "str_upper v = v \<and> CHR '' '' \<notin> set v \<and> CHR ''-'' \<notin> set v
         \<and> format_license_plate (PStr v) = Inr (PStr v)"
  using plate_properties [OF assms] format_clean_fixpoint [of v] str_upper_fix [of v]
  by simp

text \<open>Claim C10, witness: the plate found in \<open>plate ab-1234 seen\<close>.\<close>

theorem extracted_plate_is_normal_witness:
  "extract_license_plate_regex ''plate ab-1234 seen'' = Some ''AB1234''
   \<and> str_upper ''AB1234'' = ''AB1234''
   \<and> format_license_plate (PStr ''AB1234'') = Inr (PStr ''AB1234'')"
proof -
  have p: "extract_license_plate_regex ''plate ab-1234 seen'' = Some ''AB1234''" by code_simp
  from extracted_plate_is_normal [OF p] p show ?thesis by simp
qed

section \<open>The entry method\<close>

lemma entry_method_loop_range:
  "entry_method_loop rules s \<in> set (''Not specified'' # map (label \<circ> fst) rules)"
  by (induction rules s rule: entry_method_loop.induct) (auto simp: label_def)

lemma entry_labels:
  "map (label \<circ> fst) entry_methods =
     [''window smash'', ''door pry'', ''door kick'', ''lock pick'', ''unlocked'',
      ''cut screen'', ''garage door'', ''unknown'']"
  by (simp add: entry_methods_def label_def str_replace_char_def)

lemma entry_names:
  "map fst entry_methods =
     [''window_smash'', ''door_pry'', ''door_kick'', ''lock_pick'', ''unlocked'',
      ''cut_screen'', ''garage_door'', ''unknown'']"
  by (simp add: entry_methods_def)

text \<open>
  Claim C6. For every narrative the entry-method extractor returns one string, and it is
  the sentinel \<open>Not specified\<close> or the label of one of the eight rules \<open>window_smash\<close>,
  \<open>door_pry\<close>, \<open>door_kick\<close>, \<open>lock_pick\<close>, \<open>unlocked\<close>, \<open>cut_screen\<close>, \<open>garage_door\<close>,
  \<open>unknown\<close>; the label of a rule is its name with the underscore written as a space.
\<close>

theorem entry_method_is_one_label:
  "extract_entry_method_regex narrative \<in>
     {''window smash'', ''door pry'', ''door kick'', ''lock pick'', ''unlocked'',
      ''cut screen'', ''garage door'', ''unknown'', ''Not specified''}
   \<and> extract_entry_method_regex narrative \<in> set (''Not specified'' # map (label \<circ> fst) entry_methods)
   \<and> map fst entry_methods =
       [''window_smash'', ''door_pry'', ''door_kick'', ''lock_pick'', ''unlocked'',
        ''cut_screen'', ''garage_door'', ''unknown'']"
proof -
  have "extract_entry_method_regex narrative \<in> set (''Not specified'' # map (label \<circ> fst) entry_methods)"
    unfolding extract_entry_method_regex_def by (rule entry_method_loop_range)
  then show ?thesis unfolding entry_labels using entry_names by auto
qed

text \<open>Claim C6, at two narratives: one that no rule matches, one that the first rule matches.\<close>

theorem entry_method_is_one_label_witness:
  "extract_entry_method_regex ''Rear window smashed.'' = ''Not specified''
   \<and> extract_entry_method_regex ''smashed rear window'' = ''window smash''"
proof -
  have "extract_entry_method_regex ''Rear window smashed.'' = ''Not specified''" by code_simp
  moreover have "extract_entry_method_regex ''smashed rear window'' = ''window smash''" by code_simp
  ultimately show ?thesis
    using entry_method_is_one_label [of "''smashed rear window''"] by simp
qed


lemma entry_method_loop_first:
  "i < length rules \<Longrightarrow> re_search (snd (rules ! i)) s \<noteq> None \<Longrightarrow>
   \<forall>j<i. re_search (snd (rules ! j)) s = None \<Longrightarrow>
   entry_method_loop rules s = label (fst (rules ! i))"
proof (induction rules arbitrary: i)
  case Nil
  then show ?case by simp
next
  case (Cons rule rules)
  obtain name pat where rule: "rule = (name, pat)" by (cases rule)
  show ?case
  proof (cases i)
    case 0
    with Cons.prems rule show ?thesis by (simp add: label_def)
  next
    case (Suc k)
    with Cons.prems have k: "k < length rules" "re_search (snd (rules ! k)) s \<noteq> None" by simp_all
    from Cons.prems Suc have none: "\<forall>j<k. re_search (snd (rules ! j)) s = None" by auto
    from Cons.prems Suc have "re_search (snd ((rule # rules) ! 0)) s = None" by blast
    with rule have "re_search pat s = None" by simp
    with Cons.IH [OF k none] rule Suc show ?thesis by simp
  qed
qed

lemma str_lower_append: "str_lower (a @ b) = str_lower a @ str_lower b"
  by (simp add: str_lower_def)

lemma smashed_window_found:
  "re_search (near [''broke'', ''smashed'', ''shattered'', ''broken''] [''window'', ''glass''])
     (pre @ ''smashed'' @ '' the '' @ ''window'' @ post) \<noteq> None"
  by (rule near_found) (simp_all add: ord_def)

lemma window_smash_example:
  "extract_entry_method_regex (pre @ ''smashed the window'' @ post) = ''window smash''"
proof -
  have low: "str_lower ''smashed the window'' = ''smashed'' @ '' the '' @ ''window''"
    by code_simp
  have "re_search (snd (entry_methods ! 0))
          (str_lower (pre @ ''smashed the window'' @ post)) \<noteq> None"
    unfolding str_lower_append low
    using smashed_window_found [of "str_lower pre" "str_lower post"]
    by (simp add: entry_methods_def)
  then have "entry_method_loop entry_methods (str_lower (pre @ ''smashed the window'' @ post))
        = label (fst (entry_methods ! 0))"
    by (intro entry_method_loop_first) (simp_all add: entry_methods_def)
  also have "\<dots> = ''window smash''"
    by (simp add: entry_methods_def label_def str_replace_char_def)
  finally show ?thesis by (simp add: extract_entry_method_regex_def)
qed

text \<open>
  Claim C5. The rules are tried in the order \<open>window_smash\<close>, \<open>door_pry\<close>, \<open>door_kick\<close>,
  \<open>lock_pick\<close>, \<open>unlocked\<close>, \<open>cut_screen\<close>, \<open>garage_door\<close>, \<open>unknown\<close>. When the rule at
  position \<open>i\<close> matches the lower-cased narrative and no rule before it does, the result is
  the label of rule \<open>i\<close>, whichever later rules match too. A narrative that contains
  \<open>smashed the window\<close> yields \<open>window smash\<close>, whatever stands before and after it
  (\<open>unknown entry\<close>, for one).
\<close>

theorem first_matching_rule_wins:
  "(rule_matches i narrative \<and> (\<forall>j<i. \<not> rule_matches j narrative)
      \<longrightarrow> extract_entry_method_regex narrative = label (fst (entry_methods ! i)))
   \<and> map fst entry_methods =
       [''window_smash'', ''door_pry'', ''door_kick'', ''lock_pick'', ''unlocked'',
        ''cut_screen'', ''garage_door'', ''unknown'']
   \<and> extract_entry_method_regex (pre @ ''smashed the window'' @ post) = ''window smash''"
proof -
  have "extract_entry_method_regex narrative = label (fst (entry_methods ! i))"
    if m: "rule_matches i narrative" and n: "\<forall>j<i. \<not> rule_matches j narrative"
  proof -
    from m have i: "i < length entry_methods"
      and hit: "re_search (snd (entry_methods ! i)) (str_lower narrative) \<noteq> None"
      by (simp_all add: rule_matches_def)
    from n i have "\<forall>j<i. re_search (snd (entry_methods ! j)) (str_lower narrative) = None"
      by (auto simp: rule_matches_def)
    from entry_method_loop_first [OF i hit this] show ?thesis
      by (simp add: extract_entry_method_regex_def)
  qed
  then show ?thesis using entry_names window_smash_example by blast
qed

lemma kicked_door_rules:
  "rule_matches 2 ''Tried to pick lock, then kicked door open.''"
  "rule_matches 3 ''Tried to pick lock, then kicked door open.''"
  "\<not> rule_matches 0 ''Tried to pick lock, then kicked door open.''"
  "\<not> rule_matches 1 ''Tried to pick lock, then kicked door open.''"
  by code_simp+

text \<open>
  Claim C5, witness: a narrative that the rules \<open>door_kick\<close> and \<open>lock_pick\<close> both match,
  and one with \<open>unknown entry\<close> and \<open>smashed the window\<close>.
\<close>

theorem first_matching_rule_wins_witness:
  "rule_matches 2 ''Tried to pick lock, then kicked door open.''
   \<and> rule_matches 3 ''Tried to pick lock, then kicked door open.''
   \<and> \<not> rule_matches 0 ''Tried to pick lock, then kicked door open.''
   \<and> \<not> rule_matches 1 ''Tried to pick lock, then kicked door open.''
   \<and> extract_entry_method_regex ''Tried to pick lock, then kicked door open.'' = ''door kick''
   \<and> extract_entry_method_regex ''Unknown entry time. He smashed the window.'' = ''window smash''"
proof -
  have n: "\<forall>j<2. \<not> rule_matches j ''Tried to pick lock, then kicked door open.''"
    using kicked_door_rules(3,4) by (auto simp: less_Suc_eq numeral_2_eq_2)
  have l: "label (fst (entry_methods ! 2)) = ''door kick''" by code_simp
  show ?thesis
    using first_matching_rule_wins [of 2 "''Tried to pick lock, then kicked door open.''"
        "''Unknown entry time. He ''" "''.''"] kicked_door_rules n l
    by simp
qed

section \<open>The deterministic result\<close>

lemma fallback_x: "fallback_regex_extraction ''x'' =
   PDict [(''method_of_entry'', PStr ''Not specified''), (''suspects'', PList []), (''vehicles'', PList [])]"
  by code_simp


lemma extract_vehicle_regex_shape:
  "extract_vehicle_regex n =
     [(''make'', opt_str (word_loop makes (str_lower n))), (''model'', PNone),
      (''color'', opt_str (word_loop colors (str_lower n))),
      (''plate'', opt_str (extract_license_plate_regex n))]"
  by (simp add: extract_vehicle_regex_def dict_set_def opt_str_def split: option.splits)

lemma title_from_empty: "title_from b s = [] \<longleftrightarrow> s = []"
  by (cases s) simp_all

lemma word_loop_nonempty: "word_loop ws s = Some t \<Longrightarrow> [] \<notin> set ws \<Longrightarrow> t \<noteq> []"
  by (induction ws) (auto simp: str_title_def title_from_empty split: if_splits)

lemma makes_nonempty: "[] \<notin> set makes"
  by (simp add: makes_def)

lemma colors_nonempty: "[] \<notin> set colors"
  by (simp add: colors_def)

lemma truthy_opt_str_make: "truthy (opt_str (word_loop makes s)) \<longleftrightarrow> word_loop makes s \<noteq> None"
  using word_loop_nonempty [OF _ makes_nonempty] by (cases "word_loop makes s") (auto simp: opt_str_def)

lemma truthy_opt_str_color: "truthy (opt_str (word_loop colors s)) \<longleftrightarrow> word_loop colors s \<noteq> None"
  using word_loop_nonempty [OF _ colors_nonempty] by (cases "word_loop colors s") (auto simp: opt_str_def)

lemma truthy_opt_str_plate:
  "truthy (opt_str (extract_license_plate_regex n)) \<longleftrightarrow> extract_license_plate_regex n \<noteq> None"
  using plate_properties(1) [of n] by (cases "extract_license_plate_regex n") (auto simp: opt_str_def)

lemma vehicle_values:
  "dict_values (extract_vehicle_regex n) =
     [opt_str (word_loop makes (str_lower n)), PNone,
      opt_str (word_loop colors (str_lower n)), opt_str (extract_license_plate_regex n)]"
  by (simp add: extract_vehicle_regex_shape dict_values_def distinct_clearjunk_id)

lemma populated_opt_str: "(case opt_str x of PStr s \<Rightarrow> s \<noteq> [] | _ \<Rightarrow> False) = truthy (opt_str x)"
  by (cases x) (simp_all add: opt_str_def)

lemma vehicle_populated:
  "list_ex (populated (extract_vehicle_regex n)) [''make'', ''model'', ''color'', ''plate'']
     = list_ex truthy (dict_values (extract_vehicle_regex n))"
  unfolding vehicle_values
  by (simp add: populated_def extract_vehicle_regex_shape dict_get_def populated_opt_str)

text \<open>
  Claim C8. For every narrative the deterministic result has no suspects, its vehicle has
  no model, and its vehicle list holds the one vehicle when one of the attributes make,
  model, color, plate is populated, and is empty otherwise.
\<close>

theorem fallback_result_shape:
  "dict_get (as_dict (fallback_regex_extraction narrative)) ''suspects'' = PList []
   \<and> dict_get (extract_vehicle_regex narrative) ''model'' = PNone
   \<and> dict_get (as_dict (fallback_regex_extraction narrative)) ''vehicles''
       = (if list_ex (populated (extract_vehicle_regex narrative)) [''make'', ''model'', ''color'', ''plate'']
          then PList [PDict (extract_vehicle_regex narrative)] else PList [])"
  unfolding vehicle_populated
  by (simp add: fallback_regex_extraction_def as_dict_def dict_get_def Let_def extract_vehicle_regex_shape)

text \<open>Claim C8, at a narrative with a vehicle and at one without.\<close>

theorem fallback_result_shape_witness:
  "fallback_regex_extraction ''red vw AB-1234''
     = PDict [(''method_of_entry'', PStr ''Not specified''), (''suspects'', PList []),
              (''vehicles'', PList [PDict [(''make'', PStr ''Vw''), (''model'', PNone),
                                           (''color'', PStr ''Red''), (''plate'', PStr ''AB1234'')]])]
   \<and> fallback_regex_extraction ''x''
     = PDict [(''method_of_entry'', PStr ''Not specified''), (''suspects'', PList []),
              (''vehicles'', PList [])]"
proof -
  have a: "fallback_regex_extraction ''red vw AB-1234''
     = PDict [(''method_of_entry'', PStr ''Not specified''), (''suspects'', PList []),
              (''vehicles'', PList [PDict [(''make'', PStr ''Vw''), (''model'', PNone),
                                           (''color'', PStr ''Red''), (''plate'', PStr ''AB1234'')]])]"
    by code_simp
  show ?thesis
    using a fallback_x fallback_result_shape [of "''x''"] by simp
qed

section \<open>Retries\<close>










lemma no_attempt_without_retries:
  "retries \<le> 0 \<Longrightarrow>
     extract_with_llm_safe svc narrative crime_code (Some retries) t
       = (fallback_regex_extraction narrative, t @ [Warning retries])"
  by (simp add: extract_with_llm_safe_def py_range_def)

lemma default_retries:
  "extract_with_llm_safe svc narrative crime_code None t
     = extract_with_llm_safe svc narrative crime_code (Some MAX_RETRIES) t"
  by (simp add: extract_with_llm_safe_def)



section \<open>The row pipeline\<close>

lemma suspects_loop_step:
  "suspects_loop ((i, suspect) # rest) rs =
     (case suspect_at suspect of
        Inl e \<Rightarrow> (rs, Some e)
      | Inr c \<Rightarrow> suspects_loop rest (put_suspect i c rs))"
  by (cases suspect) (auto simp: suspect_at_def put_suspect_def split: sum.splits)

lemma store_suspects_cases:
  "store_suspects extracted rs =
     (case suspect_cell extracted 0 of
        Inl e \<Rightarrow> (rs, Some e)
      | Inr c0 \<Rightarrow>
          (case suspect_cell extracted 1 of
             Inl e \<Rightarrow> (put_suspect 0 c0 rs, Some e)
           | Inr c1 \<Rightarrow> (put_suspect 1 c1 (put_suspect 0 c0 rs), None)))"
proof (cases "dict_get extracted ''suspects''")
  case (PList xs)
  show ?thesis
  proof (cases xs)
    case Nil
    with PList show ?thesis
      by (simp add: store_suspects_def suspect_cell_def put_suspect_def)
  next
    case (Cons a ys)
    show ?thesis
    proof (cases ys)
      case Nil
      with Cons PList show ?thesis
        by (simp add: store_suspects_def suspect_cell_def suspects_loop_step put_suspect_def
            del: suspects_loop.simps(2) split: sum.splits)
    next
      case (Cons b zs)
      with \<open>xs = a # ys\<close> PList show ?thesis
        by (simp add: store_suspects_def suspect_cell_def suspects_loop_step
            del: suspects_loop.simps(2) split: sum.splits)
    qed
  qed
qed (simp_all add: store_suspects_def suspect_cell_def put_suspect_def)


lemma put_suspect_method:
  "method_of_entry (fst (put_suspect i c rs)) = method_of_entry (fst rs)"
  "method_extracted (snd (put_suspect i c rs)) = method_extracted (snd rs)"
  by (simp_all add: put_suspect_def set_suspect_def)

lemma store_suspects_method:
  assumes "store_suspects extracted rs = (rs2, x)"
  shows "method_of_entry (fst rs2) = method_of_entry (fst rs)"
    and "method_extracted (snd rs2) = method_extracted (snd rs)"
  using assms unfolding store_suspects_cases
  by (auto simp: put_suspect_method split: sum.splits)

lemma vehicles_loop_keeps:
  "vehicles_loop xs rs = (rs3, x) \<Longrightarrow>
     method_of_entry (fst rs3) = method_of_entry (fst rs)
     \<and> method_extracted (snd rs3) = method_extracted (snd rs)
     \<and> suspect_1 (fst rs3) = suspect_1 (fst rs)
     \<and> suspect_2 (fst rs3) = suspect_2 (fst rs)
     \<and> suspects_found (snd rs3) = suspects_found (snd rs)"
proof (induction xs arbitrary: rs)
  case Nil
  then show ?case by simp
next
  case (Cons vehicle xs)
  show ?case
  proof (cases vehicle)
    case (PDict vd)
    show ?thesis
    proof (cases "list_ex truthy (dict_values vd)")
      case True
      with Cons.prems PDict show ?thesis
        by (auto simp: Let_def split: if_splits sum.splits)
    next
      case False
      with Cons.prems PDict have "vehicles_loop xs rs = (rs3, x)" by simp
      from Cons.IH [OF this] show ?thesis .
    qed
  qed (use Cons in simp_all)
qed

lemma store_vehicles_keeps:
  "store_vehicles extracted rs = (rs3, x) \<Longrightarrow>
     method_of_entry (fst rs3) = method_of_entry (fst rs)
     \<and> method_extracted (snd rs3) = method_extracted (snd rs)
     \<and> suspect_1 (fst rs3) = suspect_1 (fst rs)
     \<and> suspect_2 (fst rs3) = suspect_2 (fst rs)
     \<and> suspects_found (snd rs3) = suspects_found (snd rs)"
  by (cases "dict_get extracted ''vehicles''")
     (auto simp: store_vehicles_def dest: vehicles_loop_keeps split: if_splits)

lemma store_method_keeps:
  "suspect_1 (fst (store_method extracted rs)) = suspect_1 (fst rs)"
  "suspect_2 (fst (store_method extracted rs)) = suspect_2 (fst rs)"
  "suspects_found (snd (store_method extracted rs)) = suspects_found (snd rs)"
  by (simp_all add: store_method_def)

lemma store_method_result:
  "method_of_entry (fst (store_method extracted (r, st)))
     = (if truthy (dict_get extracted ''method_of_entry'')
        then dict_get extracted ''method_of_entry'' else method_of_entry r)"
  "method_extracted (snd (store_method extracted (r, st)))
     = method_extracted st + (if truthy (dict_get extracted ''method_of_entry'') then 1 else 0)"
  by (simp_all add: store_method_def)

text \<open>The steps of a row that is not skipped.\<close>

lemma process_row_steps:
  assumes "\<not> skip_narrative (narrative_text r)"
    and "process_row svc r st t = (ok, r', st', t')"
    and "extracted = as_dict (fst (extract_with_llm_safe svc (narrative_text r) (crime_code_text r) None t))"
  shows "\<exists>rs2 x. store_suspects extracted (store_method extracted (r, st)) = (rs2, x)
           \<and> (case x of
                 Some e \<Rightarrow> \<not> ok \<and> r' = fst rs2 \<and> st' = snd rs2
               | None \<Rightarrow> (\<exists>rs3 y. store_vehicles extracted rs2 = (rs3, y)
                              \<and> ok = (y = None) \<and> r' = fst rs3 \<and> st' = snd rs3))"
  using assms
  by (auto simp: process_row_def Let_def split: prod.splits option.splits)

text \<open>
  Claim C1, as amended. For every row that is not skipped, the \<open>method_of_entry\<close> column
  is set from the extraction result exactly when that value is truthy, and the counter
  \<open>method_extracted\<close> goes up by one exactly then. The sentinel \<open>Not specified\<close> is a
  non-empty string, hence truthy: it is written and counted like any label.
\<close>

theorem method_column_set_when_truthy:
  assumes "\<not> skip_narrative (narrative_text r)"
    and "process_row svc r st t = (ok, r', st', t')"
    and "m = dict_get (as_dict (fst (extract_with_llm_safe svc (narrative_text r)
                 (crime_code_text r) None t))) ''method_of_entry''"
  shows "method_of_entry r' = (if truthy m then m else method_of_entry r)
         \<and> method_extracted st' = method_extracted st + (if truthy m then 1 else 0)
         \<and> truthy (PStr ''Not specified'')"
proof -
  define extracted where
    "extracted = as_dict (fst (extract_with_llm_safe svc (narrative_text r) (crime_code_text r) None t))"
  from process_row_steps [OF assms(1,2) extracted_def] obtain rs2 x where
    s: "store_suspects extracted (store_method extracted (r, st)) = (rs2, x)"
    and rest: "case x of Some e \<Rightarrow> \<not> ok \<and> r' = fst rs2 \<and> st' = snd rs2
               | None \<Rightarrow> (\<exists>rs3 y. store_vehicles extracted rs2 = (rs3, y)
                              \<and> ok = (y = None) \<and> r' = fst rs3 \<and> st' = snd rs3)"
    by blast
  have m: "m = dict_get extracted ''method_of_entry''" by (simp add: assms(3) extracted_def)
  have "method_of_entry r' = method_of_entry (fst rs2) \<and> method_extracted st' = method_extracted (snd rs2)"
    using rest by (cases x) (auto dest: store_vehicles_keeps)
  with store_suspects_method [OF s] show ?thesis
    by (simp add: store_method_result m)
qed


lemma safe_always_failing:
  "extract_with_llm_safe (\<lambda>k n c. Failure) n c None t
     = (fallback_regex_extraction n,
        t @ [ClientCall n c, Sleep 1, ClientCall n c, Sleep 1, ClientCall n c, Warning 3])"
  by (simp add: extract_with_llm_safe_def MAX_RETRIES_def py_range_def upto.simps
      extract_with_llm_def RETRY_DELAY_def)

text \<open>
  Claim C1 as stated fails: when every request fails and no rule matches the narrative,
  the sentinel \<open>Not specified\<close> is written to the column and the counter goes up.
\<close>

theorem sentinel_is_written_and_counted:
  "process_row (\<lambda>k n c. Failure) (initialize_output_columns ''220'' ''x'') init_stats []
     = (True, (initialize_output_columns ''220'' ''x'')\<lparr>method_of_entry := PStr ''Not specified''\<rparr>,
        init_stats\<lparr>method_extracted := 1\<rparr>,
        [ClientCall ''x'' ''220'', Sleep 1, ClientCall ''x'' ''220'', Sleep 1,
         ClientCall ''x'' ''220'', Warning 3])"
proof -
  have ns: "\<not> skip_narrative ''x''" by code_simp
  show ?thesis
    by (simp add: process_row_def initialize_output_columns_def ns safe_always_failing fallback_x
        as_dict_def store_method_def store_suspects_def store_vehicles_def dict_get_def init_stats_def
        Let_def)
qed

text \<open>Claim C1 as amended, witness: a remote result with the method \<open>door pry\<close>.\<close>

theorem method_column_set_when_truthy_witness:
  "\<not> skip_narrative (narrative_text (initialize_output_columns ''220'' ''x''))
   \<and> method_of_entry (fst (snd (process_row (\<lambda>k n c. Payload (PDict [(''method_of_entry'', PStr ''door pry'')]))
        (initialize_output_columns ''220'' ''x'') init_stats []))) = PStr ''door pry''
   \<and> method_extracted (fst (snd (snd (process_row (\<lambda>k n c. Payload (PDict [(''method_of_entry'', PStr ''door pry'')]))
        (initialize_output_columns ''220'' ''x'') init_stats [])))) = 1"
proof -
  let ?svc = "\<lambda>(k::nat) (n::string) (c::string). Payload (PDict [(''method_of_entry'', PStr ''door pry'')])"
  let ?r = "initialize_output_columns ''220'' ''x''"
  let ?res = "process_row ?svc ?r init_stats []"
  have ns: "\<not> skip_narrative (narrative_text ?r)" by code_simp
  have res: "?res = (fst ?res, fst (snd ?res), fst (snd (snd ?res)), snd (snd (snd ?res)))" by simp
  have m: "PStr ''door pry'' = dict_get (as_dict (fst (extract_with_llm_safe ?svc (narrative_text ?r)
                 (crime_code_text ?r) None []))) ''method_of_entry''"
    by (simp add: extract_with_llm_safe_def MAX_RETRIES_def py_range_def upto.simps
        extract_with_llm_def backfill_def dict_has_def as_dict_def dict_get_def)
  have z: "method_extracted init_stats = 0" by (simp add: init_stats_def)
  show ?thesis
    using method_column_set_when_truthy [OF ns res m] ns by (simp add: z)
qed

lemma put_suspect_cols:
  "suspect_1 (fst (put_suspect 0 c rs)) = (if truthy c then c else suspect_1 (fst rs))"
  "suspect_2 (fst (put_suspect 0 c rs)) = suspect_2 (fst rs)"
  "suspects_found (snd (put_suspect 0 c rs)) = suspects_found (snd rs) + (if truthy c then 1 else 0)"
  "suspect_1 (fst (put_suspect (Suc 0) c rs)) = suspect_1 (fst rs)"
  "suspect_2 (fst (put_suspect (Suc 0) c rs)) = (if truthy c then c else suspect_2 (fst rs))"
  "suspects_found (snd (put_suspect (Suc 0) c rs)) = suspects_found (snd rs)"
  by (simp_all add: put_suspect_def set_suspect_def)

lemma clean_suspect_description_str:
  "clean_suspect_description (PStr s)
     = Inr (if s = [] \<or> s = ''null'' then PNone else PStr (take 100 (str_strip s)))"
  by (simp add: clean_suspect_description_def)

text \<open>
  Claim C9. For every row that is not skipped: when the description of the suspect at
  position 1 cleans to \<open>c0\<close>, the column \<open>suspect_1\<close> is \<open>c0\<close> if that is present and
  untouched otherwise, and the counter \<open>suspects_found\<close> goes up by one exactly when it is
  present; when the description at position 2 cleans to \<open>c1\<close> as well, the column
  \<open>suspect_2\<close> is \<open>c1\<close> if present and untouched otherwise, and the counter does not depend
  on it. Suspects after the second are not read. When cleaning the first description
  raises, the row fails with both columns and the counter untouched. Cleaning a string
  gives nothing for the empty string and for \<open>null\<close>, and otherwise the string with white
  space trimmed at both ends, cut to its first 100 characters.
\<close>

theorem suspect_columns_and_counter:
  assumes "\<not> skip_narrative (narrative_text r)"
    and "process_row svc r st t = (ok, r', st', t')"
    and "extracted = as_dict (fst (extract_with_llm_safe svc (narrative_text r)
                 (crime_code_text r) None t))"
  shows "(suspect_cell extracted 0 = Inr c0 \<longrightarrow>
            suspect_1 r' = (if truthy c0 then c0 else suspect_1 r)
            \<and> suspects_found st' = suspects_found st + (if truthy c0 then 1 else 0))
         \<and> (suspect_cell extracted 0 = Inr c0 \<and> suspect_cell extracted 1 = Inr c1 \<longrightarrow>
            suspect_2 r' = (if truthy c1 then c1 else suspect_2 r))
         \<and> (suspect_cell extracted 0 = Inl e \<longrightarrow>
            \<not> ok \<and> suspect_1 r' = suspect_1 r \<and> suspect_2 r' = suspect_2 r
            \<and> suspects_found st' = suspects_found st)
         \<and> clean_suspect_description (PStr s)
             = Inr (if s = [] \<or> s = ''null'' then PNone else PStr (take 100 (str_strip s)))"
proof -
  from process_row_steps [OF assms] obtain rs2 x where
    s: "store_suspects extracted (store_method extracted (r, st)) = (rs2, x)"
    and rest: "case x of Some e \<Rightarrow> \<not> ok \<and> r' = fst rs2 \<and> st' = snd rs2
               | None \<Rightarrow> (\<exists>rs3 y. store_vehicles extracted rs2 = (rs3, y)
                              \<and> ok = (y = None) \<and> r' = fst rs3 \<and> st' = snd rs3)"
    by blast
  have keep: "suspect_1 r' = suspect_1 (fst rs2) \<and> suspect_2 r' = suspect_2 (fst rs2)
      \<and> suspects_found st' = suspects_found (snd rs2) \<and> (x \<noteq> None \<longrightarrow> \<not> ok)"
    using rest by (cases x) (auto dest: store_vehicles_keeps)
  show ?thesis
    using s keep unfolding store_suspects_cases
    by (auto simp: put_suspect_cols store_method_keeps clean_suspect_description_str
        split: sum.splits)
qed


text \<open>
  Claim C9, witness: three suspects, the second with the description \<open>null\<close>. The first
  is stored, trimmed, and counted; the second is absent; the third is dropped.
\<close>

theorem suspect_columns_and_counter_witness:
  "\<not> skip_narrative (narrative_text (initialize_output_columns ''220'' ''x''))
   \<and> process_row
        (\<lambda>k n c. Payload (PDict [(''suspects'',
           PList [PDict [(''id'', PStr ''S1''), (''description'', PStr '' tall man '')],
                  PDict [(''id'', PStr ''S2''), (''description'', PStr ''null'')],
                  PDict [(''id'', PStr ''S3''), (''description'', PStr ''driver'')]])]))
        (initialize_output_columns ''220'' ''x'') init_stats []
      = (True, (initialize_output_columns ''220'' ''x'')\<lparr>suspect_1 := PStr ''tall man''\<rparr>,
         init_stats\<lparr>suspects_found := 1\<rparr>, [ClientCall ''x'' ''220''])"
proof -
  let ?d = "[(''suspects'',
           PList [PDict [(''id'', PStr ''S1''), (''description'', PStr '' tall man '')],
                  PDict [(''id'', PStr ''S2''), (''description'', PStr ''null'')],
                  PDict [(''id'', PStr ''S3''), (''description'', PStr ''driver'')]])]"
  let ?svc = "\<lambda>(k::nat) (n::string) (c::string). Payload (PDict ?d)"
  let ?r = "initialize_output_columns ''220'' ''x''"
  let ?res = "process_row ?svc ?r init_stats []"
  let ?ex = "as_dict (fst (extract_with_llm_safe ?svc (narrative_text ?r) (crime_code_text ?r) None []))"
  have ns: "\<not> skip_narrative (narrative_text ?r)" by code_simp
  have strip: "take 100 (str_strip '' tall man '') = ''tall man''" by code_simp
  have ex: "?ex = ?d @ [(''method_of_entry'', PNone), (''vehicles'', PList [])]"
    by (simp add: extract_with_llm_safe_def MAX_RETRIES_def py_range_def upto.simps
        extract_with_llm_def backfill_def dict_has_def as_dict_def initialize_output_columns_def)
  have c0: "suspect_cell ?ex 0 = Inr (PStr ''tall man'')"
    unfolding ex by (simp add: suspect_cell_def suspect_at_def dict_get_def dict_has_def
        clean_suspect_description_def strip)
  have c1: "suspect_cell ?ex 1 = Inr PNone"
    unfolding ex by (simp add: suspect_cell_def suspect_at_def dict_get_def dict_has_def
        clean_suspect_description_def)
  have res: "?res = (fst ?res, fst (snd ?res), fst (snd (snd ?res)), snd (snd (snd ?res)))" by simp
  have run: "?res = (True, ?r\<lparr>suspect_1 := PStr ''tall man''\<rparr>,
         init_stats\<lparr>suspects_found := 1\<rparr>, [ClientCall ''x'' ''220''])"
    by (simp add: process_row_def initialize_output_columns_def extract_with_llm_safe_def
        MAX_RETRIES_def py_range_def upto.simps extract_with_llm_def backfill_def dict_has_def
        as_dict_def store_method_def store_suspects_def store_vehicles_def dict_get_def
        init_stats_def Let_def clean_suspect_description_def set_suspect_def strip calls_made_def
        skip_narrative_def str_lower_def lower_char_def is_upper_def ord_def)
  from suspect_columns_and_counter [OF ns res refl, of "PStr ''tall man''" PNone]
  have "suspect_1 (fst (snd ?res)) = PStr ''tall man''"
    using c0 by simp
  with ns run show ?thesis by simp
qed

section \<open>The result invariant\<close>










end
